theory Spec2Isabelle
  imports Main "HOL-Library.Word" "HOL-Library.List_Lexorder"
begin

unbundle bit_operations_syntax

section \<open>Bytes and errors\<close>

text \<open>
  A Python \<open>bytes\<close> or \<open>bytearray\<close> is a list of 8-bit words; Python integers are
  \<open>int\<close>. Every exception the modelled code can raise is a value of \<open>error\<close>.
\<close>

type_synonym byte = "8 word"

datatype error = IndexError | OverflowError | UnicodeEncodeError

section \<open>Nibble swap (both scripts, lines 6-10)\<close>

definition nibble_swap_byte :: "byte \<Rightarrow> byte" where
  "nibble_swap_byte b = (push_bit 4 (b AND 0x0F)) OR (drop_bit 4 (b AND 0xF0))"

definition nibble_swap :: "byte list \<Rightarrow> byte list" where
  "nibble_swap data = map nibble_swap_byte data"

section \<open>The transform engine\<close>

text \<open>The key table \<open>v12\<close> of both routines.\<close>

definition v12 :: "byte list" where
  "v12 = [0xFF, 0xFF, 0xFF, 0x01, 0x9C, 0xAA, 0xA5, 0x00, 0x30, 0xFF]"

text \<open>
  The negation statement
  \<^verbatim>\<open>(-((b if b < 128 else b-256))) & 0xFF\<close>
  computed on Python integers and stored back into the byte array.
\<close>

definition negate_byte :: "byte \<Rightarrow> byte" where
  "negate_byte b =
     word_of_int ((- (if uint b < 128 then uint b else uint b - 256)) AND 0xFF)"

text \<open>The key index \<^verbatim>\<open>(j % 6) + ((j // 5) % 5)\<close> and the XOR statement.\<close>

definition key_index :: "int \<Rightarrow> int" where
  "key_index j = (j mod 6) + ((j div 5) mod 5)"

definition xor_byte :: "int \<Rightarrow> byte \<Rightarrow> byte" where
  "xor_byte j b = b XOR ((v12 ! nat (key_index j)) AND 0xFF)"

text \<open>
  The three \<^verbatim>\<open>while\<close> loops. Each has the shape
  \<^verbatim>\<open>while i < end: (if i >= a4: buf[i - a4] = ...); i += step\<close>
  and appears, textually identical, in all four branches of the two routines. The loop
  variable, \<open>a4\<close>, \<open>end\<close> and the buffer are the state.
\<close>

function neg_loop :: "int \<Rightarrow> int \<Rightarrow> int \<Rightarrow> byte list \<Rightarrow> byte list" where
  "neg_loop i a4 e buf =
     (if i < e
      then neg_loop (i + 4) a4 e
             (if i \<ge> a4 then buf[nat (i - a4) := negate_byte (buf ! nat (i - a4))] else buf)
      else buf)"
  by pat_completeness auto
termination
  by (relation "measure (\<lambda>(i, a4, e, buf). nat (e - i))") auto

function xor_loop :: "int \<Rightarrow> int \<Rightarrow> int \<Rightarrow> byte list \<Rightarrow> byte list" where
  "xor_loop j a4 e buf =
     (if j < e
      then xor_loop (j + 3) a4 e
             (if j \<ge> a4 then buf[nat (j - a4) := xor_byte j (buf ! nat (j - a4))] else buf)
      else buf)"
  by pat_completeness auto
termination
  by (relation "measure (\<lambda>(j, a4, e, buf). nat (e - j))") auto

function swap_loop :: "int \<Rightarrow> int \<Rightarrow> int \<Rightarrow> byte list \<Rightarrow> byte list" where
  "swap_loop k a4 e buf =
     (if k < e
      then swap_loop (k + 6) a4 e
             (if k \<ge> a4 then buf[nat (k - a4) := nibble_swap_byte (buf ! nat (k - a4))] else buf)
      else buf)"
  by pat_completeness auto
termination
  by (relation "measure (\<lambda>(k, a4, e, buf). nat (e - k))") auto

text \<open>
  \<^verbatim>\<open>decode_buffer\<close> (extract script, lines 13-75). The buffer is mutated in place in the
  source; the model returns the final buffer. Reading \<^verbatim>\<open>buf[0]\<close> of an empty buffer
  raises \<open>IndexError\<close>, which happens only when \<open>start_offset\<close> is falsy (zero).
\<close>

definition decode_buffer :: "byte list \<Rightarrow> int \<Rightarrow> error + byte list" where
  "decode_buffer buf start_offset =
     (let a4 = start_offset;
          a2 = int (length buf)
      in case (if a4 \<noteq> 0 then Inr (1::nat)
               else if buf = [] then Inl IndexError
               else if hd buf < 0x80 then Inr 2
               else Inr 1) of
           Inl err \<Rightarrow> Inl err
         | Inr mode \<Rightarrow>
             let e = a4 + a2
             in if mode = 1 then
                  Inr (let b1 = neg_loop (4 * (drop_bit 2 a4) + 1) a4 e buf;
                           b2 = xor_loop (3 * (a4 div 3)) a4 e b1
                       in swap_loop (6 * (a4 div 6) + 2) a4 e b2)
                else if mode = 2 then
                  Inr (let b1 = swap_loop (6 * (a4 div 6) + 2) a4 e buf;
                           b2 = xor_loop (3 * (a4 div 3)) a4 e b1
                       in neg_loop (4 * (drop_bit 2 a4) + 1) a4 e b2)
                else Inr buf)"

text \<open>\<^verbatim>\<open>encode_buffer\<close> (pack script, lines 13-75).\<close>

definition encode_buffer :: "byte list \<Rightarrow> int \<Rightarrow> error + byte list" where
  "encode_buffer buf start_offset =
     (let a4 = start_offset;
          a2 = int (length buf)
      in case (if a4 \<noteq> 0 then Inr (1::nat)
               else if buf = [] then Inl IndexError
               else if hd buf < 0x80 then Inr 2
               else Inr 1) of
           Inl err \<Rightarrow> Inl err
         | Inr mode \<Rightarrow>
             let e = a4 + a2
             in if mode = 1 then
                  Inr (let b1 = swap_loop (6 * (a4 div 6) + 2) a4 e buf;
                           b2 = xor_loop (3 * (a4 div 3)) a4 e b1
                       in neg_loop (4 * (drop_bit 2 a4) + 1) a4 e b2)
                else if mode = 2 then
                  Inr (let b1 = neg_loop (4 * (drop_bit 2 a4) + 1) a4 e buf;
                           b2 = xor_loop (3 * (a4 div 3)) a4 e b1
                       in swap_loop (6 * (a4 div 6) + 2) a4 e b2)
                else Inr buf)"

text \<open>
  Applying \<^verbatim>\<open>encode_buffer\<close> and then \<^verbatim>\<open>decode_buffer\<close> to its result, with the same
  \<open>start_offset\<close>: the packer followed by the extractor on one payload.
\<close>

definition encode_then_decode :: "byte list \<Rightarrow> int \<Rightarrow> error + byte list" where
  "encode_then_decode buf start_offset =
     (case encode_buffer buf start_offset of
        Inl err \<Rightarrow> Inl err
      | Inr enc \<Rightarrow> decode_buffer enc start_offset)"

text \<open>
  The positions a call leaves alone: the absolute position \<open>s + p\<close> is on none of the three
  progressions.
\<close>

definition untouched :: "int \<Rightarrow> nat \<Rightarrow> bool" where
  "untouched s p =
     ((s + int p) mod 4 \<noteq> 1 \<and> (s + int p) mod 3 \<noteq> 0 \<and> (s + int p) mod 6 \<noteq> 2)"

text \<open>
  A stage seen as a whole: the operation \<open>f\<close> applied at every buffer index whose
  absolute position satisfies \<open>c\<close>. The loops are shown to compute exactly this.
\<close>

definition apply_at :: "(int \<Rightarrow> bool) \<Rightarrow> (int \<Rightarrow> byte \<Rightarrow> byte) \<Rightarrow> int \<Rightarrow> byte list \<Rightarrow> byte list" where
  "apply_at c f a4 buf =
     map (\<lambda>p. if c (a4 + int p) then f (a4 + int p) (buf ! p) else buf ! p) [0..<length buf]"

abbreviation T1 :: "int \<Rightarrow> byte list \<Rightarrow> byte list" where
  "T1 \<equiv> apply_at (\<lambda>pos. pos mod 4 = 1) (\<lambda>pos. negate_byte)"

abbreviation T2 :: "int \<Rightarrow> byte list \<Rightarrow> byte list" where
  "T2 \<equiv> apply_at (\<lambda>pos. pos mod 3 = 0) xor_byte"

abbreviation T3 :: "int \<Rightarrow> byte list \<Rightarrow> byte list" where
  "T3 \<equiv> apply_at (\<lambda>pos. pos mod 6 = 2) (\<lambda>pos. nibble_swap_byte)"

section \<open>Python primitives used by the archive code\<close>

text \<open>
  A Python \<open>str\<close> is a sequence of Unicode code points. The scripts call the built-in
  UTF-8 codec, integer/bytes conversions and slicing; these are modelled here as the
  language defines them.
\<close>

type_synonym pystr = "nat list"

text \<open>
  \<^verbatim>\<open>str.encode("utf-8")\<close>: one to four bytes per code point; a surrogate
  (\<open>U+D800\<close> to \<open>U+DFFF\<close>) raises \<open>UnicodeEncodeError\<close>. No \<open>str\<close> holds a code point
  above \<open>U+10FFFF\<close>; the model rejects such a number the same way.
\<close>

definition utf8_encode_char :: "nat \<Rightarrow> error + byte list" where
  "utf8_encode_char c =
     (if c < 0x80 then Inr [of_nat c]
      else if c < 0x800 then Inr [of_nat (0xC0 + c div 64), of_nat (0x80 + c mod 64)]
      else if 0xD800 \<le> c \<and> c \<le> 0xDFFF then Inl UnicodeEncodeError
      else if c < 0x10000 then
        Inr [of_nat (0xE0 + c div 4096), of_nat (0x80 + c div 64 mod 64),
             of_nat (0x80 + c mod 64)]
      else if c < 0x110000 then
        Inr [of_nat (0xF0 + c div 262144), of_nat (0x80 + c div 4096 mod 64),
             of_nat (0x80 + c div 64 mod 64), of_nat (0x80 + c mod 64)]
      else Inl UnicodeEncodeError)"

fun utf8_encode :: "pystr \<Rightarrow> error + byte list" where
  "utf8_encode [] = Inr []"
| "utf8_encode (c # cs) =
     (case utf8_encode_char c of
        Inl err \<Rightarrow> Inl err
      | Inr bs \<Rightarrow> (case utf8_encode cs of Inl err \<Rightarrow> Inl err | Inr rest \<Rightarrow> Inr (bs @ rest)))"

text \<open>
  \<^verbatim>\<open>bytes.decode("utf-8", errors="ignore")\<close>. \<open>utf8_decode_one b0 rest\<close> looks at the
  sequence starting with \<open>b0\<close> and returns the code point, if the sequence is well formed,
  and the number of bytes consumed. An ill-formed sequence is dropped up to the byte that
  breaks it (a truncated sequence at the end of the data is dropped whole); overlong forms,
  surrogates and values above \<open>U+10FFFF\<close> are ill formed.
\<close>

definition is_cont :: "nat \<Rightarrow> bool" where
  "is_cont b = (0x80 \<le> b \<and> b \<le> 0xBF)"

definition utf8_decode_one :: "nat \<Rightarrow> nat list \<Rightarrow> nat option \<times> nat" where
  "utf8_decode_one b0 rest =
     (if b0 < 0x80 then (Some b0, 1)
      else if 0xC2 \<le> b0 \<and> b0 \<le> 0xDF then
        (case rest of
           [] \<Rightarrow> (None, 1)
         | b1 # _ \<Rightarrow>
             if is_cont b1 then (Some ((b0 - 0xC0) * 64 + (b1 - 0x80)), 2) else (None, 1))
      else if 0xE0 \<le> b0 \<and> b0 \<le> 0xEF then
        (case rest of
           [] \<Rightarrow> (None, 1)
         | b1 # rest1 \<Rightarrow>
             if (b0 = 0xE0 \<and> b1 < 0xA0) \<or> (b0 = 0xED \<and> 0xA0 \<le> b1) \<or> \<not> is_cont b1
             then (None, 1)
             else (case rest1 of
                     [] \<Rightarrow> (None, 2)
                   | b2 # _ \<Rightarrow>
                       if is_cont b2
                       then (Some ((b0 - 0xE0) * 4096 + (b1 - 0x80) * 64 + (b2 - 0x80)), 3)
                       else (None, 2)))
      else if 0xF0 \<le> b0 \<and> b0 \<le> 0xF4 then
        (case rest of
           [] \<Rightarrow> (None, 1)
         | b1 # rest1 \<Rightarrow>
             if (b0 = 0xF0 \<and> b1 < 0x90) \<or> (b0 = 0xF4 \<and> 0x90 \<le> b1) \<or> \<not> is_cont b1
             then (None, 1)
             else (case rest1 of
                     [] \<Rightarrow> (None, 2)
                   | b2 # rest2 \<Rightarrow>
                       if \<not> is_cont b2 then (None, 2)
                       else (case rest2 of
                               [] \<Rightarrow> (None, 3)
                             | b3 # _ \<Rightarrow>
                                 if is_cont b3
                                 then (Some ((b0 - 0xF0) * 262144 + (b1 - 0x80) * 4096
                                             + (b2 - 0x80) * 64 + (b3 - 0x80)), 4)
                                 else (None, 3))))
      else (None, 1))"

fun utf8_decode_nat :: "nat list \<Rightarrow> pystr" where
  "utf8_decode_nat [] = []"
| "utf8_decode_nat (b0 # rest) =
     (case fst (utf8_decode_one b0 rest) of None \<Rightarrow> [] | Some c \<Rightarrow> [c])
     @ utf8_decode_nat (drop (snd (utf8_decode_one b0 rest) - 1) rest)"

definition utf8_decode_ignore :: "byte list \<Rightarrow> pystr" where
  "utf8_decode_ignore bs = utf8_decode_nat (map unat bs)"

text \<open>
  \<^verbatim>\<open>n.to_bytes(4, "little")\<close> raises \<open>OverflowError\<close> outside \<open>0 \<le> n < 2^32\<close>;
  \<^verbatim>\<open>int.from_bytes(bs, "little")\<close> accepts any length, the empty one giving 0.
\<close>

definition to_bytes4 :: "int \<Rightarrow> error + byte list" where
  "to_bytes4 n =
     (if n < 0 \<or> 4294967296 \<le> n then Inl OverflowError
      else Inr [word_of_int (n mod 256), word_of_int (n div 256 mod 256),
                word_of_int (n div 65536 mod 256), word_of_int (n div 16777216 mod 256)])"

fun from_bytes_le :: "byte list \<Rightarrow> int" where
  "from_bytes_le [] = 0"
| "from_bytes_le (b # bs) = uint b + 256 * from_bytes_le bs"

text \<open>
  Slicing \<^verbatim>\<open>xs[start:stop]\<close>: a negative bound counts from the end, and both bounds are
  then clipped to the sequence; \<^verbatim>\<open>xs[start:]\<close> likewise. Slice assignment
  \<^verbatim>\<open>xs[i:j] = ys\<close> is used only with \<open>0 \<le> i \<le> j \<le> len(xs)\<close>.
\<close>

definition slice_bound :: "'a list \<Rightarrow> int \<Rightarrow> nat" where
  "slice_bound xs i =
     (let n = int (length xs)
      in if i < 0 then nat (max (i + n) 0) else nat (min i n))"

definition py_slice :: "'a list \<Rightarrow> int \<Rightarrow> int \<Rightarrow> 'a list" where
  "py_slice xs start stop =
     (let lo = slice_bound xs start; hi = slice_bound xs stop
      in take (hi - lo) (drop lo xs))"

definition py_slice_from :: "'a list \<Rightarrow> int \<Rightarrow> 'a list" where
  "py_slice_from xs start = drop (slice_bound xs start) xs"

definition slice_assign :: "'a list \<Rightarrow> nat \<Rightarrow> nat \<Rightarrow> 'a list \<Rightarrow> 'a list" where
  "slice_assign xs i j ys = take i xs @ ys @ drop j xs"

section \<open>The extraction script\<close>

text \<open>The dataclass \<^verbatim>\<open>Entry(name, packed_size, unpacked_size, offset)\<close>.\<close>

datatype Entry = Entry (name: pystr) (packed_size: int) (unpacked_size: int) (offset: int)

text \<open>
  The body of the loop of \<^verbatim>\<open>parse_dat_index\<close> (lines 95-100) on one slot \<open>ent\<close>:
  the name is \<^verbatim>\<open>ent[:64].split(b"\x00", 1)[0].decode("utf-8", errors="ignore")\<close>.
\<close>

definition parse_entry :: "byte list \<Rightarrow> Entry" where
  "parse_entry ent =
     (let name = utf8_decode_ignore (takeWhile (\<lambda>b. b \<noteq> 0) (py_slice ent 0 64));
          offset = from_bytes_le (py_slice ent 64 68);
          unpacked = from_bytes_le (py_slice ent 68 72);
          packed = from_bytes_le (py_slice ent 72 76)
      in Entry name packed unpacked offset)"

text \<open>\<^verbatim>\<open>parse_dat_index\<close> (lines 84-102). Nothing in it raises.\<close>

definition file_count_of :: "byte list \<Rightarrow> int" where
  "file_count_of dat_bytes = from_bytes_le (py_slice_from dat_bytes (- 4))"

definition index_start_of :: "byte list \<Rightarrow> int" where
  "index_start_of dat_bytes = int (length dat_bytes) - 4 - file_count_of dat_bytes * 80"

definition parse_dat_index :: "byte list \<Rightarrow> Entry list" where
  "parse_dat_index dat_bytes =
     (let file_count = file_count_of dat_bytes;
          index_size = file_count * 80;
          index_start = int (length dat_bytes) - 4 - index_size;
          index = nibble_swap (py_slice dat_bytes index_start (index_start + index_size))
      in map (\<lambda>i. parse_entry (py_slice index (int i * 80) ((int i + 1) * 80)))
             [0..<nat file_count])"

text \<open>
  The loop of \<^verbatim>\<open>extract_and_decode\<close> (lines 128-146) without the file system: for every
  entry the name and either the decoded payload or the exception that the
  \<^verbatim>\<open>try\<close>/\<^verbatim>\<open>except\<close> around that entry catches. The loop goes on after a failed entry.
\<close>

definition extract_entry :: "byte list \<Rightarrow> Entry \<Rightarrow> pystr \<times> (error + byte list)" where
  "extract_entry dat e =
     (let raw = py_slice dat (Entry.offset e) (Entry.offset e + packed_size e)
      in (Entry.name e, decode_buffer raw 0))"

definition extract_and_decode :: "byte list \<Rightarrow> (pystr \<times> (error + byte list)) list" where
  "extract_and_decode dat = map (extract_entry dat) (parse_dat_index dat)"

section \<open>The packing script\<close>

text \<open>The dataclass \<^verbatim>\<open>FileEntry(name, data, offset=0)\<close>.\<close>

datatype FileEntry = FileEntry (name: pystr) (data: "byte list") (offset: int)

text \<open>
  Lines 94-100. The directory walk yields the regular files below the input directory;
  a file is given by the components of its path relative to that directory and by its
  contents. \<^verbatim>\<open>sorted\<close> compares paths, which POSIX paths do component by component:
  the list order on the components, each a string compared code point by code point, a
  proper prefix first. The name stored is the components joined by \<open>/\<close>, with every
  backslash replaced by \<open>/\<close>.
\<close>

fun join_slash :: "pystr list \<Rightarrow> pystr" where
  "join_slash [] = []"
| "join_slash [p] = p"
| "join_slash (p # q # ps) = p @ [0x2F] @ join_slash (q # ps)"

definition replace_backslash :: "pystr \<Rightarrow> pystr" where
  "replace_backslash s = map (\<lambda>c. if c = 0x5C then 0x2F else c) s"

definition collect_files :: "(pystr list \<times> byte list) list \<Rightarrow> FileEntry list" where
  "collect_files found =
     map (\<lambda>(parts, contents). FileEntry (replace_backslash (join_slash parts)) contents 0)
         (sort_key fst found)"

text \<open>
  Lines 108-120: every payload is encoded at \<open>start_offset = 0\<close> and stored with the
  running offset. An exception of \<^verbatim>\<open>encode_buffer\<close> is not caught and ends the script.
\<close>

fun encode_files :: "int \<Rightarrow> FileEntry list \<Rightarrow> error + FileEntry list" where
  "encode_files current_offset [] = Inr []"
| "encode_files current_offset (f # fs) =
     (case encode_buffer (data f) 0 of
        Inl err \<Rightarrow> Inl err
      | Inr encoded \<Rightarrow>
          (case encode_files (current_offset + int (length encoded)) fs of
             Inl err \<Rightarrow> Inl err
           | Inr rest \<Rightarrow> Inr (FileEntry (name f) encoded current_offset # rest)))"

text \<open>
  Lines 132-147: the 80-byte slot of one encoded file. The name is truncated to 63 bytes,
  so that byte 63 of the slot stays zero.
\<close>

definition index_entry :: "FileEntry \<Rightarrow> error + byte list" where
  "index_entry f =
     (case utf8_encode (name f) of
        Inl err \<Rightarrow> Inl err
      | Inr encoded_name \<Rightarrow>
          (let entry0 = replicate 80 0;
               name_bytes = py_slice encoded_name 0 63;
               entry1 = slice_assign entry0 0 (length name_bytes) name_bytes
           in case to_bytes4 (offset f) of
                Inl err \<Rightarrow> Inl err
              | Inr off \<Rightarrow>
                  (case to_bytes4 (int (length (data f))) of
                     Inl err \<Rightarrow> Inl err
                   | Inr len4 \<Rightarrow>
                       Inr (slice_assign
                              (slice_assign (slice_assign entry1 64 68 off) 68 72 len4)
                              72 76 len4))))"

fun build_index :: "FileEntry list \<Rightarrow> error + byte list" where
  "build_index [] = Inr []"
| "build_index (f # fs) =
     (case index_entry f of
        Inl err \<Rightarrow> Inl err
      | Inr entry \<Rightarrow>
          (case build_index fs of Inl err \<Rightarrow> Inl err | Inr rest \<Rightarrow> Inr (entry @ rest)))"

text \<open>
  Lines 108-156: the archive bytes for the collected \<open>files\<close>: the encoded payloads, the
  nibble-swapped index and the file count.
\<close>

definition build_archive :: "FileEntry list \<Rightarrow> error + byte list" where
  "build_archive files =
     (case encode_files 0 files of
        Inl err \<Rightarrow> Inl err
      | Inr encoded_files \<Rightarrow>
          (case build_index encoded_files of
             Inl err \<Rightarrow> Inl err
           | Inr index \<Rightarrow>
               (case to_bytes4 (int (length files)) of
                  Inl err \<Rightarrow> Inl err
                | Inr count \<Rightarrow>
                    Inr (concat (map data encoded_files) @ nibble_swap index @ count))))"

text \<open>
  \<^verbatim>\<open>create_dat_archive\<close> without the file system: \<open>None\<close> when no file was found and
  nothing is written, otherwise the archive bytes or the exception that ends the script.
\<close>

definition create_dat_archive :: "(pystr list \<times> byte list) list \<Rightarrow> (error + byte list) option" where
  "create_dat_archive found =
     (let files = collect_files found
      in if files = [] then None else Some (build_archive files))"

text \<open>Packing a list of files and extracting the archive that results.\<close>

definition pack_then_extract ::
  "FileEntry list \<Rightarrow> error + (pystr \<times> (error + byte list)) list" where
  "pack_then_extract files =
     (case build_archive files of
        Inl err \<Rightarrow> Inl err
      | Inr archive \<Rightarrow> Inr (extract_and_decode archive))"

text \<open>The UTF-8 bytes of a name, for comparing names byte by byte.\<close>

definition name_bytes_of :: "pystr \<Rightarrow> byte list" where
  "name_bytes_of s = (case utf8_encode s of Inl err \<Rightarrow> [] | Inr bs \<Rightarrow> bs)"

section \<open>Notions used to state the claims\<close>

text \<open>
  The three conditions under which the specification wants the read path to fail:
  a file count that is not positive, an index that does not fit into the archive, an entry
  whose slice ends behind the start of the index.
\<close>

definition format_violation :: "byte list \<Rightarrow> bool" where
  "format_violation dat =
     (file_count_of dat \<le> 0 \<or> index_start_of dat < 0 \<or>
      (\<exists>e \<in> set (parse_dat_index dat). index_start_of dat < Entry.offset e + packed_size e))"

section \<open>Properties of the byte operations\<close>

lemma int_255_mask: "(255::int) = mask 8"
  by (simp add: mask_eq_exp_minus_1)

lemma byte_15_mask: "(15::byte) = mask 4"
  by (simp add: mask_eq_exp_minus_1)

lemma byte_240_mask: "(240::byte) = push_bit 4 (mask 4)"
  by (simp add: mask_eq_exp_minus_1)

lemma word_of_int_and_255: "(word_of_int (k AND 0xFF) :: byte) = word_of_int k"
  unfolding int_255_mask by (rule bit_word_eqI) (auto simp: bit_simps)

lemma negate_byte_eq: "negate_byte b = - b"
proof -
  have "word_of_int (- (if uint b < 128 then uint b else uint b - 256)) = - b"
    by simp
  then show ?thesis
    unfolding negate_byte_def word_of_int_and_255 .
qed

lemma negate_byte_invol: "negate_byte (negate_byte b) = b"
  by (simp add: negate_byte_eq)

lemma xor_byte_invol: "xor_byte j (xor_byte j b) = b"
  by (simp add: xor_byte_def xor.assoc)

lemma nibble_swap_byte_invol: "nibble_swap_byte (nibble_swap_byte b) = b"
  unfolding nibble_swap_byte_def byte_15_mask byte_240_mask
  by (rule bit_word_eqI) (auto simp: bit_simps)

section \<open>What each loop does to each position\<close>

declare neg_loop.simps [simp del] xor_loop.simps [simp del] swap_loop.simps [simp del]

lemma length_neg_loop [simp]: "length (neg_loop i a4 e buf) = length buf"
  by (induction i a4 e buf rule: neg_loop.induct) (subst neg_loop.simps, simp)

lemma length_xor_loop [simp]: "length (xor_loop i a4 e buf) = length buf"
  by (induction i a4 e buf rule: xor_loop.induct) (subst xor_loop.simps, simp)

lemma length_swap_loop [simp]: "length (swap_loop i a4 e buf) = length buf"
  by (induction i a4 e buf rule: swap_loop.induct) (subst swap_loop.simps, simp)

lemma nth_neg_loop:
  "p < length buf \<Longrightarrow>
   neg_loop i a4 e buf ! p =
     (if i \<le> a4 + int p \<and> a4 + int p < e \<and> (a4 + int p - i) mod 4 = 0
      then negate_byte (buf ! p) else buf ! p)"
proof (induction i a4 e buf rule: neg_loop.induct)
  case (1 i a4 e buf)
  show ?case
  proof (cases "i < e")
    case False
    then show ?thesis by (subst neg_loop.simps) auto
  next
    case True
    define buf' where
      "buf' = (if i \<ge> a4 then buf[nat (i - a4) := negate_byte (buf ! nat (i - a4))] else buf)"
    have len: "p < length buf'"
      using "1.prems" by (simp add: buf'_def)
    have unfold: "neg_loop i a4 e buf = neg_loop (i + 4) a4 e buf'"
      using True by (subst neg_loop.simps) (simp add: buf'_def)
    have IH: "neg_loop (i + 4) a4 e buf' ! p =
        (if i + 4 \<le> a4 + int p \<and> a4 + int p < e \<and> (a4 + int p - (i + 4)) mod 4 = 0
         then negate_byte (buf' ! p) else buf' ! p)"
      using "1.IH" [OF True] len by (simp add: buf'_def)
    show ?thesis
    proof (cases "a4 + int p = i")
      case here: True
      then have "buf' ! p = negate_byte (buf ! p)"
        using "1.prems" by (auto simp: buf'_def)
      with here True IH show ?thesis
        unfolding unfold by simp
    next
      case other: False
      then have same: "buf' ! p = buf ! p"
        by (auto simp: buf'_def)
      have "(i + 4 \<le> a4 + int p \<and> (a4 + int p - (i + 4)) mod 4 = 0)
            = (i \<le> a4 + int p \<and> (a4 + int p - i) mod 4 = 0)"
        using other by presburger
      with IH same show ?thesis
        unfolding unfold by auto
    qed
  qed
qed

lemma nth_xor_loop:
  "p < length buf \<Longrightarrow>
   xor_loop j a4 e buf ! p =
     (if j \<le> a4 + int p \<and> a4 + int p < e \<and> (a4 + int p - j) mod 3 = 0
      then xor_byte (a4 + int p) (buf ! p) else buf ! p)"
proof (induction j a4 e buf rule: xor_loop.induct)
  case (1 j a4 e buf)
  show ?case
  proof (cases "j < e")
    case False
    then show ?thesis by (subst xor_loop.simps) auto
  next
    case True
    define buf' where
      "buf' = (if j \<ge> a4 then buf[nat (j - a4) := xor_byte j (buf ! nat (j - a4))] else buf)"
    have len: "p < length buf'"
      using "1.prems" by (simp add: buf'_def)
    have unfold: "xor_loop j a4 e buf = xor_loop (j + 3) a4 e buf'"
      using True by (subst xor_loop.simps) (simp add: buf'_def)
    have IH: "xor_loop (j + 3) a4 e buf' ! p =
        (if j + 3 \<le> a4 + int p \<and> a4 + int p < e \<and> (a4 + int p - (j + 3)) mod 3 = 0
         then xor_byte (a4 + int p) (buf' ! p) else buf' ! p)"
      using "1.IH" [OF True] len by (simp add: buf'_def)
    show ?thesis
    proof (cases "a4 + int p = j")
      case here: True
      then have "buf' ! p = xor_byte (a4 + int p) (buf ! p)"
        using "1.prems" by (auto simp: buf'_def)
      with here True IH show ?thesis
        unfolding unfold by simp
    next
      case other: False
      then have same: "buf' ! p = buf ! p"
        by (auto simp: buf'_def)
      have "(j + 3 \<le> a4 + int p \<and> (a4 + int p - (j + 3)) mod 3 = 0)
            = (j \<le> a4 + int p \<and> (a4 + int p - j) mod 3 = 0)"
        using other by presburger
      with IH same show ?thesis
        unfolding unfold by auto
    qed
  qed
qed

lemma nth_swap_loop:
  "p < length buf \<Longrightarrow>
   swap_loop k a4 e buf ! p =
     (if k \<le> a4 + int p \<and> a4 + int p < e \<and> (a4 + int p - k) mod 6 = 0
      then nibble_swap_byte (buf ! p) else buf ! p)"
proof (induction k a4 e buf rule: swap_loop.induct)
  case (1 k a4 e buf)
  show ?case
  proof (cases "k < e")
    case False
    then show ?thesis by (subst swap_loop.simps) auto
  next
    case True
    define buf' where
      "buf' = (if k \<ge> a4 then buf[nat (k - a4) := nibble_swap_byte (buf ! nat (k - a4))] else buf)"
    have len: "p < length buf'"
      using "1.prems" by (simp add: buf'_def)
    have unfold: "swap_loop k a4 e buf = swap_loop (k + 6) a4 e buf'"
      using True by (subst swap_loop.simps) (simp add: buf'_def)
    have IH: "swap_loop (k + 6) a4 e buf' ! p =
        (if k + 6 \<le> a4 + int p \<and> a4 + int p < e \<and> (a4 + int p - (k + 6)) mod 6 = 0
         then nibble_swap_byte (buf' ! p) else buf' ! p)"
      using "1.IH" [OF True] len by (simp add: buf'_def)
    show ?thesis
    proof (cases "a4 + int p = k")
      case here: True
      then have "buf' ! p = nibble_swap_byte (buf ! p)"
        using "1.prems" by (auto simp: buf'_def)
      with here True IH show ?thesis
        unfolding unfold by simp
    next
      case other: False
      then have same: "buf' ! p = buf ! p"
        by (auto simp: buf'_def)
      have "(k + 6 \<le> a4 + int p \<and> (a4 + int p - (k + 6)) mod 6 = 0)
            = (k \<le> a4 + int p \<and> (a4 + int p - k) mod 6 = 0)"
        using other by presburger
      with IH same show ?thesis
        unfolding unfold by auto
    qed
  qed
qed

section \<open>The loops as whole-buffer stages\<close>

lemma length_apply_at [simp]: "length (apply_at c f a4 buf) = length buf"
  by (simp add: apply_at_def)

lemma nth_apply_at:
  "p < length buf \<Longrightarrow>
   apply_at c f a4 buf ! p = (if c (a4 + int p) then f (a4 + int p) (buf ! p) else buf ! p)"
  by (simp add: apply_at_def)

lemma apply_at_invol:
  assumes "\<And>pos b. f pos (f pos b) = b"
  shows "apply_at c f a4 (apply_at c f a4 buf) = buf"
  by (rule nth_equalityI) (simp_all add: nth_apply_at assms)

lemma progression_start:
  fixes a c d :: int and p :: nat
  assumes d: "0 < d" and c: "0 \<le> c" "c < d"
  shows "(d * (a div d) + c \<le> a + int p \<and> (a + int p - (d * (a div d) + c)) mod d = 0)
         = ((a + int p) mod d = c)"
proof -
  define n where "n = a mod d + int p"
  have n0: "0 \<le> n"
    using d by (simp add: n_def)
  have e: "d * (a div d) = a - a mod d"
    by (simp add: minus_mod_eq_mult_div)
  have le: "(d * (a div d) + c \<le> a + int p) = (c \<le> n)"
    unfolding e n_def by linarith
  have df: "a + int p - (d * (a div d) + c) = n - c"
    unfolding e n_def by linarith
  have md: "(a + int p) mod d = n mod d"
    unfolding n_def by (simp add: mod_add_left_eq)
  have "(c \<le> n \<and> (n - c) mod d = 0) = (n mod d = c)"
  proof
    assume h: "c \<le> n \<and> (n - c) mod d = 0"
    have "n mod d = ((n - c) + c) mod d" by simp
    also have "\<dots> = ((n - c) mod d + c) mod d" by (simp only: mod_add_left_eq)
    also have "\<dots> = c mod d" using h by simp
    also have "\<dots> = c" using c by simp
    finally show "n mod d = c" .
  next
    assume h: "n mod d = c"
    have "n mod d \<le> n" using n0 by (rule zmod_le_nonneg_dividend)
    with h have "c \<le> n" by simp
    moreover have "(n - c) mod d = (n mod d - c) mod d" by (simp only: mod_diff_left_eq)
    then have "(n - c) mod d = 0" using h by simp
    ultimately show "c \<le> n \<and> (n - c) mod d = 0" by simp
  qed
  then show ?thesis
    unfolding le df md .
qed

lemma neg_loop_stage:
  "neg_loop (4 * (drop_bit 2 a4) + 1) a4 (a4 + int (length buf)) buf = T1 a4 buf"
proof (rule nth_equalityI)
  fix p assume "p < length (neg_loop (4 * (drop_bit 2 a4) + 1) a4 (a4 + int (length buf)) buf)"
  then have p: "p < length buf" by simp
  have "(4 * (a4 div 4) + 1 \<le> a4 + int p \<and> (a4 + int p - (4 * (a4 div 4) + 1)) mod 4 = 0)
        = ((a4 + int p) mod 4 = 1)"
    by (rule progression_start) simp_all
  with p show "neg_loop (4 * (drop_bit 2 a4) + 1) a4 (a4 + int (length buf)) buf ! p = T1 a4 buf ! p"
    by (simp add: nth_neg_loop nth_apply_at drop_bit_eq_div)
qed simp

lemma xor_loop_stage:
  "xor_loop (3 * (a4 div 3)) a4 (a4 + int (length buf)) buf = T2 a4 buf"
proof (rule nth_equalityI)
  fix p assume "p < length (xor_loop (3 * (a4 div 3)) a4 (a4 + int (length buf)) buf)"
  then have p: "p < length buf" by simp
  have "(3 * (a4 div 3) + 0 \<le> a4 + int p \<and> (a4 + int p - (3 * (a4 div 3) + 0)) mod 3 = 0)
        = ((a4 + int p) mod 3 = 0)"
    by (rule progression_start) simp_all
  with p show "xor_loop (3 * (a4 div 3)) a4 (a4 + int (length buf)) buf ! p = T2 a4 buf ! p"
    by (simp add: nth_xor_loop nth_apply_at)
qed simp

lemma swap_loop_stage:
  "swap_loop (6 * (a4 div 6) + 2) a4 (a4 + int (length buf)) buf = T3 a4 buf"
proof (rule nth_equalityI)
  fix p assume "p < length (swap_loop (6 * (a4 div 6) + 2) a4 (a4 + int (length buf)) buf)"
  then have p: "p < length buf" by simp
  have "(6 * (a4 div 6) + 2 \<le> a4 + int p \<and> (a4 + int p - (6 * (a4 div 6) + 2)) mod 6 = 0)
        = ((a4 + int p) mod 6 = 2)"
    by (rule progression_start) simp_all
  with p show "swap_loop (6 * (a4 div 6) + 2) a4 (a4 + int (length buf)) buf ! p = T3 a4 buf ! p"
    by (simp add: nth_swap_loop nth_apply_at)
qed simp

lemma T1_invol: "T1 a4 (T1 a4 buf) = buf"
  by (rule apply_at_invol) (rule negate_byte_invol)

lemma T2_invol: "T2 a4 (T2 a4 buf) = buf"
  by (rule apply_at_invol) (rule xor_byte_invol)

lemma T3_invol: "T3 a4 (T3 a4 buf) = buf"
  by (rule apply_at_invol) (rule nibble_swap_byte_invol)

lemma run_T1_T2_T3:
  "swap_loop (6 * (s div 6) + 2) s (s + int (length buf))
     (xor_loop (3 * (s div 3)) s (s + int (length buf))
        (neg_loop (4 * (drop_bit 2 s) + 1) s (s + int (length buf)) buf))
   = T3 s (T2 s (T1 s buf))"
  using xor_loop_stage [of s "T1 s buf"] swap_loop_stage [of s "T2 s (T1 s buf)"]
  by (simp add: neg_loop_stage)

lemma run_T3_T2_T1:
  "neg_loop (4 * (drop_bit 2 s) + 1) s (s + int (length buf))
     (xor_loop (3 * (s div 3)) s (s + int (length buf))
        (swap_loop (6 * (s div 6) + 2) s (s + int (length buf)) buf))
   = T1 s (T2 s (T3 s buf))"
  using xor_loop_stage [of s "T3 s buf"] neg_loop_stage [of s "T2 s (T3 s buf)"]
  by (simp add: swap_loop_stage)

text \<open>The two routines in terms of the stages, one equation per mode.\<close>

lemma decode_buffer_mode1:
  "s \<noteq> 0 \<or> (buf \<noteq> [] \<and> \<not> hd buf < 0x80) \<Longrightarrow>
   decode_buffer buf s = Inr (T3 s (T2 s (T1 s buf)))"
  using run_T1_T2_T3 [of s buf] by (auto simp: decode_buffer_def Let_def)

lemma decode_buffer_mode2:
  "buf \<noteq> [] \<Longrightarrow> hd buf < 0x80 \<Longrightarrow>
   decode_buffer buf 0 = Inr (T1 0 (T2 0 (T3 0 buf)))"
  using run_T3_T2_T1 [of 0 buf] by (simp add: decode_buffer_def Let_def)

lemma encode_buffer_mode1:
  "s \<noteq> 0 \<or> (buf \<noteq> [] \<and> \<not> hd buf < 0x80) \<Longrightarrow>
   encode_buffer buf s = Inr (T1 s (T2 s (T3 s buf)))"
  using run_T3_T2_T1 [of s buf] by (auto simp: encode_buffer_def Let_def)

lemma encode_buffer_mode2:
  "buf \<noteq> [] \<Longrightarrow> hd buf < 0x80 \<Longrightarrow>
   encode_buffer buf 0 = Inr (T3 0 (T2 0 (T1 0 buf)))"
  using run_T1_T2_T3 [of 0 buf] by (simp add: encode_buffer_def Let_def)

lemma encode_buffer_empty_zero: "encode_buffer [] 0 = Inl IndexError"
  by (simp add: encode_buffer_def)

lemma decode_buffer_empty_zero: "decode_buffer [] 0 = Inl IndexError"
  by (simp add: decode_buffer_def)

section \<open>The first byte under encoding\<close>

lemma xor_255_not: "(b::byte) XOR 0xFF = NOT b"
proof -
  have "(0xFF::byte) = - 1" by simp
  then show ?thesis by (metis bit.xor_one_right)
qed

lemma xor_255_high_bit: "((b::byte) XOR 0xFF < 0x80) = (\<not> b < 0x80)"
proof -
  have lt: "uint b < 256" using uint_lt2p [of b] by simp
  have ge: "0 \<le> uint b" by simp
  have "uint (NOT b) = take_bit 8 (NOT (uint b))"
    using unsigned_not_eq [of b, where 'a = int] by simp
  also have "\<dots> = (- uint b - 1) mod 256"
    by (simp only: take_bit_eq_mod not_int_def) simp
  also have "- uint b - 1 = (255 - uint b) + (- 1) * 256"
    by simp
  also have "((255 - uint b) + (- 1) * 256) mod 256 = (255 - uint b) mod 256"
    by (rule mod_mult_self1)
  finally have "uint (NOT b) = (255 - uint b) mod 256" .
  then have "uint (NOT b) = 255 - uint b"
    using lt ge by simp
  then show ?thesis
    unfolding xor_255_not by (simp add: word_less_alt) linarith
qed

lemma apply_at_eq_Nil [simp]: "(apply_at c f s buf = []) = (buf = [])"
  by (simp add: apply_at_def)

lemma hd_apply_at:
  "buf \<noteq> [] \<Longrightarrow> hd (apply_at c f s buf) = (if c s then f s (hd buf) else hd buf)"
proof -
  assume ne: "buf \<noteq> []"
  then have "0 < length buf" by simp
  then have "apply_at c f s buf ! 0 = (if c (s + int 0) then f (s + int 0) (buf ! 0) else buf ! 0)"
    by (rule nth_apply_at)
  moreover have "apply_at c f s buf \<noteq> []"
    using ne by (simp add: apply_at_def)
  ultimately show ?thesis
    using ne by (simp add: hd_conv_nth)
qed

lemma xor_byte_0: "xor_byte 0 b = b XOR 0xFF"
  by (simp add: xor_byte_def key_index_def v12_def)

lemma encode_buffer_first_byte:
  assumes "buf \<noteq> []"
  shows "\<exists>enc. encode_buffer buf 0 = Inr enc \<and> enc \<noteq> [] \<and> hd enc = hd buf XOR 0xFF"
proof (cases "hd buf < 0x80")
  case True
  have "hd (T3 0 (T2 0 (T1 0 buf))) = hd buf XOR 0xFF"
    using assms by (simp add: hd_apply_at xor_byte_0)
  then show ?thesis
    using assms True encode_buffer_mode2 [of buf] by simp
next
  case False
  have "hd (T1 0 (T2 0 (T3 0 buf))) = hd buf XOR 0xFF"
    using assms by (simp add: hd_apply_at xor_byte_0)
  then show ?thesis
    using assms False encode_buffer_mode1 [of 0 buf] by simp
qed

lemma encode_buffer_flips_high_bit:
  assumes "buf \<noteq> []" "encode_buffer buf 0 = Inr enc"
  shows "(hd enc < 0x80) = (\<not> hd buf < 0x80)"
  using encode_buffer_first_byte [OF assms(1)] assms(2) by (auto simp: xor_255_high_bit)

section \<open>Claims about the transform engine\<close>

text \<open>
  C4. For every buffer and every \<open>start_offset\<close> other than 0, both routines take mode 1,
  and decoding the encoded buffer with the same \<open>start_offset\<close> returns the original buffer:
  the encoder runs T3, T2, T1 and the decoder T1, T2, T3, and every stage undoes itself.
\<close>

theorem roundtrip_nonzero_offset:
  "start_offset \<noteq> 0 \<Longrightarrow> encode_then_decode buf start_offset = Inr buf"
  by (simp add: encode_then_decode_def encode_buffer_mode1 decode_buffer_mode1
      T1_invol T2_invol T3_invol)

theorem roundtrip_nonzero_offset_witness:
  "(5::int) \<noteq> 0 \<and> encode_then_decode [0x41, 0x80, 0x07, 0x00, 0xFF, 0x10, 0x7F, 0x33] 5
      = Inr [0x41, 0x80, 0x07, 0x00, 0xFF, 0x10, 0x7F, 0x33]"
  using roundtrip_nonzero_offset [of 5 "[0x41, 0x80, 0x07, 0x00, 0xFF, 0x10, 0x7F, 0x33]"]
  by simp

text \<open>
  C9. With \<open>start_offset = 0\<close> both routines read \<open>buf[0]\<close> before any stage runs, so an
  empty buffer raises \<open>IndexError\<close>; with any other \<open>start_offset\<close> an empty buffer is
  returned unchanged and nothing is raised.
\<close>

theorem empty_buffer:
  "decode_buffer [] 0 = Inl IndexError \<and> encode_buffer [] 0 = Inl IndexError \<and>
   (\<forall>s. s \<noteq> 0 \<longrightarrow> decode_buffer [] s = Inr [] \<and> encode_buffer [] s = Inr [])"
  by (simp add: decode_buffer_mode1 encode_buffer_mode1 decode_buffer_empty_zero
      encode_buffer_empty_zero apply_at_def)

theorem empty_buffer_witness:
  "decode_buffer [] 0 = Inl IndexError \<and> encode_buffer [] 0 = Inl IndexError \<and>
   (3::int) \<noteq> 0 \<and> decode_buffer [] 3 = Inr [] \<and> encode_buffer [] 3 = Inr []"
  using empty_buffer by simp

lemma untouched_T:
  assumes "p < length buf" "untouched s p"
  shows "T1 s buf ! p = buf ! p" "T2 s buf ! p = buf ! p" "T3 s buf ! p = buf ! p"
  using assms by (simp_all add: nth_apply_at untouched_def)

lemma frame_stages:
  assumes "p < length buf" "untouched s p"
  shows "T3 s (T2 s (T1 s buf)) ! p = buf ! p" "T1 s (T2 s (T3 s buf)) ! p = buf ! p"
  using assms by (simp_all add: untouched_T)

lemma decode_buffer_cases:
  "(s = 0 \<and> buf = [] \<and> decode_buffer buf s = Inl IndexError) \<or>
   decode_buffer buf s = Inr (T3 s (T2 s (T1 s buf))) \<or>
   (s = 0 \<and> decode_buffer buf s = Inr (T1 s (T2 s (T3 s buf))))"
  using decode_buffer_mode1 [of s buf] decode_buffer_mode2 [of buf] decode_buffer_empty_zero
  by (cases "s = 0"; cases "buf = []"; cases "hd buf < 0x80") auto

lemma encode_buffer_cases:
  "(s = 0 \<and> buf = [] \<and> encode_buffer buf s = Inl IndexError) \<or>
   encode_buffer buf s = Inr (T3 s (T2 s (T1 s buf))) \<or>
   encode_buffer buf s = Inr (T1 s (T2 s (T3 s buf)))"
  using encode_buffer_mode1 [of s buf] encode_buffer_mode2 [of buf] encode_buffer_empty_zero
  by (cases "s = 0"; cases "buf = []"; cases "hd buf < 0x80") auto

text \<open>
  C10. Both routines preserve the length of the buffer, and leave unchanged every byte
  whose absolute position \<open>s + p\<close> is not 1 modulo 4, not 0 modulo 3 and not 2 modulo 6.
  The only call that does not return a buffer is the one on the empty buffer at
  \<open>start_offset = 0\<close>, which raises before anything is written.
\<close>

theorem frame_untouched:
  "(case decode_buffer buf s of
      Inl err \<Rightarrow> buf = [] \<and> s = 0
    | Inr out \<Rightarrow> length out = length buf \<and>
        (\<forall>p < length buf. untouched s p \<longrightarrow> out ! p = buf ! p)) \<and>
   (case encode_buffer buf s of
      Inl err \<Rightarrow> buf = [] \<and> s = 0
    | Inr out \<Rightarrow> length out = length buf \<and>
        (\<forall>p < length buf. untouched s p \<longrightarrow> out ! p = buf ! p))"
  using decode_buffer_cases [of s buf] encode_buffer_cases [of s buf]
  by (auto simp: frame_stages)

theorem frame_untouched_witness:
  "untouched 0 10 \<and>
   (\<exists>d. decode_buffer [1, 2, 3, 4, 5, 6, 7, 8, 9, 10, 11, 12] 0 = Inr d \<and>
        length d = 12 \<and> d ! 10 = 11) \<and>
   (\<exists>e. encode_buffer [1, 2, 3, 4, 5, 6, 7, 8, 9, 10, 11, 12] 0 = Inr e \<and>
        length e = 12 \<and> e ! 10 = 11)"
proof -
  let ?buf = "[1, 2, 3, 4, 5, 6, 7, 8, 9, 10, 11, 12] :: byte list"
  have u: "untouched 0 10"
    by (simp add: untouched_def)
  have p: "(10::nat) < length ?buf"
    by simp
  note fr = frame_untouched [of ?buf 0]
  have d: "\<exists>d. decode_buffer ?buf 0 = Inr d \<and> length d = 12 \<and> d ! 10 = 11"
  proof (cases "decode_buffer ?buf 0")
    case (Inl err)
    with fr show ?thesis by simp
  next
    case (Inr d)
    with fr have "length d = length ?buf" and "\<forall>p < length ?buf. untouched 0 p \<longrightarrow> d ! p = ?buf ! p"
      by simp_all
    with u p Inr show ?thesis by simp
  qed
  have e: "\<exists>e. encode_buffer ?buf 0 = Inr e \<and> length e = 12 \<and> e ! 10 = 11"
  proof (cases "encode_buffer ?buf 0")
    case (Inl err)
    with fr show ?thesis by simp
  next
    case (Inr e)
    with fr have "length e = length ?buf" and "\<forall>p < length ?buf. untouched 0 p \<longrightarrow> e ! p = ?buf ! p"
      by simp_all
    with u p Inr show ?thesis by simp
  qed
  from u d e show ?thesis by simp
qed

text \<open>
  C1. A payload whose first byte is at least \<open>0x80\<close> is encoded in mode 1 (T3, T2, T1).
  T2 XORs position 0 with \<open>v12[0] = 0xFF\<close>, so the encoded first byte is below \<open>0x80\<close> and
  the decoder takes mode 2 (T3, T2, T1 again) instead of the inverse order. Position 9 is
  on both the negation and the XOR progression, where the two do not commute: the ten-byte
  payload below does not come back.
\<close>

theorem mode_A_roundtrip_fails_at_position_9:
  "encode_buffer [0x80, 0, 0, 0, 0, 0, 0, 0, 0, 0] 0
     = Inr [0x7F, 0, 0, 0x01, 0, 0, 0xFF, 0, 0, 0x64] \<and>
   encode_then_decode [0x80, 0, 0, 0, 0, 0, 0, 0, 0, 0] 0
     = Inr [0x80, 0, 0, 0, 0, 0, 0, 0, 0, 0x08]"
  by (simp add: encode_then_decode_def encode_buffer_def decode_buffer_def
      neg_loop.simps xor_loop.simps swap_loop.simps
      negate_byte_eq xor_byte_def key_index_def v12_def nibble_swap_byte_def)

section \<open>Concrete archives\<close>

text \<open>
  C3. The single file \<open>a.txt\<close> with payload \<open>41 42 43 44 45\<close>: the first byte is below
  \<open>0x80\<close>, so the packer encodes in mode 2, which is T1, then T2, then T3, and gives
  \<open>BE BE 34 45 45\<close>. Extracting the archive (the index parsed, the entry sliced, the mode
  chosen by the decoder from the first byte \<open>BE\<close>) gives back the payload exactly.
\<close>

theorem a_txt_scenario:
  "encode_buffer [0x41, 0x42, 0x43, 0x44, 0x45] 0
     = Inr (T3 0 (T2 0 (T1 0 [0x41, 0x42, 0x43, 0x44, 0x45]))) \<and>
   encode_buffer [0x41, 0x42, 0x43, 0x44, 0x45] 0 = Inr [0xBE, 0xBE, 0x34, 0x45, 0x45] \<and>
   pack_then_extract [FileEntry [97, 46, 116, 120, 116] [0x41, 0x42, 0x43, 0x44, 0x45] 0]
     = Inr [([97, 46, 116, 120, 116], Inr [0x41, 0x42, 0x43, 0x44, 0x45])]"
proof -
  have "encode_buffer [0x41, 0x42, 0x43, 0x44, 0x45] 0
     = Inr (T3 0 (T2 0 (T1 0 [0x41, 0x42, 0x43, 0x44, 0x45])))"
    by (rule encode_buffer_mode2) simp_all
  moreover have "encode_buffer [0x41, 0x42, 0x43, 0x44, 0x45] 0
     = Inr [0xBE, 0xBE, 0x34, 0x45, 0x45]"
    by code_simp
  moreover have
    "pack_then_extract [FileEntry [97, 46, 116, 120, 116] [0x41, 0x42, 0x43, 0x44, 0x45] 0]
     = Inr [([97, 46, 116, 120, 116], Inr [0x41, 0x42, 0x43, 0x44, 0x45])]"
    by code_simp
  ultimately show ?thesis by simp
qed

text \<open>
  C2. One file named \<open>a\<close> with a ten-byte payload: the archive that the packer builds does
  not give the payload back. The packer encodes in mode 2 (first byte \<open>0x41\<close>), the
  extractor decodes in mode 1 (first byte of the ciphertext \<open>0xBE\<close>), and the byte at
  position 9 comes back as \<open>0xF8\<close> instead of \<open>0x00\<close>.
\<close>

theorem archive_roundtrip_fails_at_position_9:
  "pack_then_extract [FileEntry [97] [0x41, 0, 0, 0, 0, 0, 0, 0, 0, 0] 0]
     = Inr [([97], Inr [0x41, 0, 0, 0, 0, 0, 0, 0, 0, 0xF8])]"
  by code_simp

section \<open>The read path\<close>

lemma length_parse_dat_index: "length (parse_dat_index dat) = nat (file_count_of dat)"
  by (simp add: parse_dat_index_def file_count_of_def Let_def)

lemma length_extract_and_decode: "length (extract_and_decode dat) = nat (file_count_of dat)"
  by (simp add: extract_and_decode_def length_parse_dat_index)

lemma decode_buffer_zero_nonempty:
  "raw \<noteq> [] \<Longrightarrow> \<exists>payload. decode_buffer raw 0 = Inr payload \<and> length payload = length raw"
  using decode_buffer_cases [of 0 raw] by auto

text \<open>
  C6, as the code has it. Neither \<^verbatim>\<open>parse_dat_index\<close> nor the extraction loop validates
  anything, and no format error exists: the index parser returns exactly \<open>file_count\<close>
  entries for every byte sequence, and every entry is handled on its own. Its slice
  \<^verbatim>\<open>dat[offset:offset + packed_size]\<close> is clipped to the archive; an empty slice makes
  that entry fail with \<open>IndexError\<close>, which the loop catches, and a slice that is not
  empty always yields a payload of the same length.
\<close>

theorem read_path_validates_nothing:
  "length (parse_dat_index dat) = nat (file_count_of dat) \<and>
   length (extract_and_decode dat) = nat (file_count_of dat) \<and>
   (\<forall>e. let raw = py_slice dat (Entry.offset e) (Entry.offset e + packed_size e)
        in if raw = [] then extract_entry dat e = (Entry.name e, Inl IndexError)
           else \<exists>payload. extract_entry dat e = (Entry.name e, Inr payload) \<and>
                          length payload = length raw)"
  using decode_buffer_zero_nonempty
  by (auto simp: length_parse_dat_index length_extract_and_decode extract_entry_def Let_def
      decode_buffer_empty_zero)

theorem read_path_validates_nothing_witness:
  "length (parse_dat_index
     ([0x41] @ nibble_swap ([0x61] @ replicate 63 0
        @ [0, 0, 0, 0, 5, 0, 0, 0, 5, 0, 0, 0, 0, 0, 0, 0]) @ [1, 0, 0, 0])) = 1 \<and>
   length (extract_and_decode
     ([0x41] @ nibble_swap ([0x61] @ replicate 63 0
        @ [0, 0, 0, 0, 5, 0, 0, 0, 5, 0, 0, 0, 0, 0, 0, 0]) @ [1, 0, 0, 0])) = 1"
proof -
  let ?A = "[0x41] @ nibble_swap ([0x61] @ replicate 63 0
        @ [0, 0, 0, 0, 5, 0, 0, 0, 5, 0, 0, 0, 0, 0, 0, 0]) @ [1, 0, 0, 0] :: byte list"
  have n: "nat (file_count_of ?A) = 1"
    by code_simp
  from read_path_validates_nothing [of ?A]
  have "length (parse_dat_index ?A) = nat (file_count_of ?A)"
    and "length (extract_and_decode ?A) = nat (file_count_of ?A)"
    by blast+
  with n show ?thesis by simp
qed

text \<open>
  The claim as stated fails twice. The archive \<open>00 00 00 00\<close> has file count 0 and is read
  as the empty archive. The second archive has one data byte, so its index starts at 1; its
  only entry has offset 0 and packed size 5, which ends behind the start of the index, and
  the extractor decodes the five bytes (four of them from the index) into a payload.
\<close>

theorem read_path_validates_nothing_counterexample:
  "format_violation [0, 0, 0, 0] \<and> extract_and_decode [0, 0, 0, 0] = [] \<and>
   format_violation
     ([0x41] @ nibble_swap ([0x61] @ replicate 63 0
        @ [0, 0, 0, 0, 5, 0, 0, 0, 5, 0, 0, 0, 0, 0, 0, 0]) @ [1, 0, 0, 0]) \<and>
   index_start_of
     ([0x41] @ nibble_swap ([0x61] @ replicate 63 0
        @ [0, 0, 0, 0, 5, 0, 0, 0, 5, 0, 0, 0, 0, 0, 0, 0]) @ [1, 0, 0, 0]) = 1 \<and>
   parse_dat_index
     ([0x41] @ nibble_swap ([0x61] @ replicate 63 0
        @ [0, 0, 0, 0, 5, 0, 0, 0, 5, 0, 0, 0, 0, 0, 0, 0]) @ [1, 0, 0, 0])
     = [Entry [97] 5 5 0] \<and>
   extract_and_decode
     ([0x41] @ nibble_swap ([0x61] @ replicate 63 0
        @ [0, 0, 0, 0, 5, 0, 0, 0, 5, 0, 0, 0, 0, 0, 0, 0]) @ [1, 0, 0, 0])
     = [([97], Inr [0xBE, 0xEA, 0, 1, 0])]"
  by code_simp

section \<open>Integers and slices\<close>

lemma uint_byte_of_mod: "uint (word_of_int (k mod 256) :: byte) = k mod 256"
  by (simp add: uint_word_of_int)

lemma four_byte_digits:
  fixes n :: int
  assumes "0 \<le> n" "n < 4294967296"
  shows "n mod 256 + 256 * (n div 256 mod 256 + 256 * (n div 65536 mod 256
           + 256 * (n div 16777216 mod 256))) = n"
proof -
  define q1 q2 q3 where "q1 = n div 256" and "q2 = q1 div 256" and "q3 = q2 div 256"
  define a0 a1 a2 where "a0 = n mod 256" and "a1 = q1 mod 256" and "a2 = q2 mod 256"
  have e0: "n = a0 + 256 * q1"
    unfolding a0_def q1_def by simp
  have e1: "q1 = a1 + 256 * q2"
    unfolding a1_def q2_def by simp
  have e2: "q2 = a2 + 256 * q3"
    unfolding a2_def q3_def by simp
  have b0: "0 \<le> a0" "0 \<le> a1" "0 \<le> a2"
    unfolding a0_def a1_def a2_def by simp_all
  have q3: "0 \<le> q3" "q3 < 256"
  proof -
    have "0 \<le> q1" unfolding q1_def using assms(1) by (simp add: pos_imp_zdiv_nonneg_iff)
    then have "0 \<le> q2" unfolding q2_def by (simp add: pos_imp_zdiv_nonneg_iff)
    then show "0 \<le> q3" unfolding q3_def by (simp add: pos_imp_zdiv_nonneg_iff)
    show "q3 < 256"
      using assms(2) e0 e1 e2 b0 by linarith
  qed
  then have m3: "q3 mod 256 = q3"
    by simp
  have d2: "n div 65536 = q2"
    unfolding q2_def q1_def by (simp add: zdiv_zmult2_eq)
  have d3: "n div 16777216 = q3"
    unfolding q3_def q2_def q1_def by (simp add: zdiv_zmult2_eq)
  have "a0 + 256 * (a1 + 256 * (a2 + 256 * q3)) = a0 + 256 * (a1 + 256 * q2)"
    by (simp only: e2 [symmetric])
  also have "\<dots> = a0 + 256 * q1"
    by (simp only: e1 [symmetric])
  also have "\<dots> = n"
    by (simp only: e0 [symmetric])
  finally have "a0 + 256 * (a1 + 256 * (a2 + 256 * q3)) = n" .
  then show ?thesis
    unfolding d2 d3 m3 a0_def a1_def a2_def q1_def [symmetric] .
qed

lemma from_bytes_to_bytes4:
  assumes "to_bytes4 n = Inr bs"
  shows "from_bytes_le bs = n \<and> length bs = 4"
proof -
  from assms have r: "0 \<le> n" "n < 4294967296"
    by (auto simp: to_bytes4_def split: if_splits)
  from assms r have bs: "bs = [word_of_int (n mod 256), word_of_int (n div 256 mod 256),
      word_of_int (n div 65536 mod 256), word_of_int (n div 16777216 mod 256)]"
    by (auto simp: to_bytes4_def)
  have "from_bytes_le bs = n mod 256 + 256 * (n div 256 mod 256 + 256 * (n div 65536 mod 256
           + 256 * (n div 16777216 mod 256)))"
    unfolding bs by (simp only: from_bytes_le.simps uint_byte_of_mod) simp
  also have "\<dots> = n"
    by (rule four_byte_digits [OF r])
  finally have "from_bytes_le bs = n" .
  moreover have "length bs = 4"
    unfolding bs by simp
  ultimately show ?thesis
    by (rule conjI)
qed

lemma to_bytes4_total: "0 \<le> n \<Longrightarrow> n < 4294967296 \<Longrightarrow> \<exists>bs. to_bytes4 n = Inr bs"
  by (simp add: to_bytes4_def)

lemma py_slice_nat: "py_slice xs (int a) (int b) = take (b - a) (drop a xs)"
  by (cases "a \<le> length xs"; cases "b \<le> length xs")
     (auto simp: py_slice_def slice_bound_def Let_def min_def)

section \<open>The UTF-8 codec inverts itself on every string it can encode\<close>

lemma decode_one_byte:
  "b < 128 \<Longrightarrow> utf8_decode_nat (b # rest) = b # utf8_decode_nat rest"
  by (simp add: utf8_decode_one_def)

lemma decode_two_bytes:
  assumes "2 \<le> a" "a < 32" "r < 64"
  shows "utf8_decode_nat ((192 + a) # (128 + r) # rest) = (a * 64 + r) # utf8_decode_nat rest"
  using assms by (simp add: utf8_decode_one_def is_cont_def)

lemma decode_three_bytes:
  assumes "a < 16" "m < 64" "r < 64" "a = 0 \<longrightarrow> 32 \<le> m" "a = 13 \<longrightarrow> m < 32"
  shows "utf8_decode_nat ((224 + a) # (128 + m) # (128 + r) # rest)
         = (a * 4096 + m * 64 + r) # utf8_decode_nat rest"
  using assms by (auto simp: utf8_decode_one_def is_cont_def)

lemma decode_four_bytes:
  assumes "a < 5" "m < 64" "k < 64" "r < 64" "a = 0 \<longrightarrow> 16 \<le> m" "a = 4 \<longrightarrow> m < 16"
  shows "utf8_decode_nat ((240 + a) # (128 + m) # (128 + k) # (128 + r) # rest)
         = (a * 262144 + m * 4096 + k * 64 + r) # utf8_decode_nat rest"
  using assms by (auto simp: utf8_decode_one_def is_cont_def)

lemma unat_of_nat_byte: "x < 256 \<Longrightarrow> unat (of_nat x :: byte) = x"
  by (simp add: unat_of_nat)

text \<open>The digits of a code point in base 64.\<close>

lemma digits_2:
  fixes c :: nat
  obtains a r where "c = a * 64 + r" "r < 64" "a = c div 64" "r = c mod 64"
  by simp

lemma digits_3:
  fixes c :: nat
  obtains a m r where "c = a * 4096 + m * 64 + r" "m < 64" "r < 64"
    "a = c div 4096" "m = c div 64 mod 64" "r = c mod 64"
proof -
  define q r a m where "q = c div 64" and "r = c mod 64" and "a = q div 64" and "m = q mod 64"
  have e1: "c = q * 64 + r"
    unfolding q_def r_def by simp
  have e2: "q = a * 64 + m"
    unfolding a_def m_def by simp
  have "c = a * 4096 + m * 64 + r"
    unfolding e1 e2 by (simp add: algebra_simps)
  moreover have "a = c div 4096"
    unfolding a_def q_def by (simp add: div_mult2_eq)
  moreover have "m < 64" "r < 64"
    unfolding m_def r_def by simp_all
  ultimately show thesis
    using that [of a m r] unfolding m_def r_def q_def by blast
qed

lemma digits_4:
  fixes c :: nat
  obtains a m k r where "c = a * 262144 + m * 4096 + k * 64 + r" "m < 64" "k < 64" "r < 64"
    "a = c div 262144" "m = c div 4096 mod 64" "k = c div 64 mod 64" "r = c mod 64"
proof -
  define q r p k a m where "q = c div 64" and "r = c mod 64" and "p = q div 64"
    and "k = q mod 64" and "a = p div 64" and "m = p mod 64"
  have e1: "c = q * 64 + r"
    unfolding q_def r_def by simp
  have e2: "q = p * 64 + k"
    unfolding p_def k_def by simp
  have e3: "p = a * 64 + m"
    unfolding a_def m_def by simp
  have "c = a * 262144 + m * 4096 + k * 64 + r"
    unfolding e1 e2 e3 by (simp add: algebra_simps)
  moreover have p: "p = c div 4096"
    unfolding p_def q_def by (simp add: div_mult2_eq)
  moreover have "a = c div 262144"
    unfolding a_def p by (simp add: div_mult2_eq)
  moreover have "m < 64" "k < 64" "r < 64"
    unfolding m_def r_def k_def by simp_all
  ultimately show thesis
    using that [of a m k r] unfolding m_def r_def k_def q_def p by blast
qed

lemma map_unat_2:
  "x < 256 \<Longrightarrow> y < 256 \<Longrightarrow> map unat [of_nat x :: byte, of_nat y] = [x, y]"
  by (simp only: list.map unat_of_nat_byte)

lemma map_unat_3:
  "x < 256 \<Longrightarrow> y < 256 \<Longrightarrow> z < 256 \<Longrightarrow>
   map unat [of_nat x :: byte, of_nat y, of_nat z] = [x, y, z]"
  by (simp only: list.map unat_of_nat_byte)

lemma map_unat_4:
  "x < 256 \<Longrightarrow> y < 256 \<Longrightarrow> z < 256 \<Longrightarrow> w < 256 \<Longrightarrow>
   map unat [of_nat x :: byte, of_nat y, of_nat z, of_nat w] = [x, y, z, w]"
  by (simp only: list.map unat_of_nat_byte)

lemma utf8_encode_char_cases [consumes 1, case_names one two three four]:
  assumes "utf8_encode_char c = Inr bs"
  obtains
    (one) "c < 128" "map unat bs = [c]"
  | (two) a r where "2 \<le> a" "a < 32" "r < 64" "c = a * 64 + r"
      "map unat bs = [192 + a, 128 + r]"
  | (three) a m r where "a < 16" "m < 64" "r < 64" "a = 0 \<longrightarrow> 32 \<le> m" "a = 13 \<longrightarrow> m < 32"
      "c = a * 4096 + m * 64 + r" "map unat bs = [224 + a, 128 + m, 128 + r]"
  | (four) a m k r where "a < 5" "m < 64" "k < 64" "r < 64" "a = 0 \<longrightarrow> 16 \<le> m"
      "a = 4 \<longrightarrow> m < 16" "c = a * 262144 + m * 4096 + k * 64 + r"
      "map unat bs = [240 + a, 128 + m, 128 + k, 128 + r]"
proof -
  consider (c1) "c < 128"
    | (c2) "128 \<le> c" "c < 2048"
    | (c3) "2048 \<le> c" "c < 65536" "\<not> (55296 \<le> c \<and> c \<le> 57343)"
    | (c4) "65536 \<le> c" "c < 1114112"
    | (bad) "(55296 \<le> c \<and> c \<le> 57343) \<or> 1114112 \<le> c"
    by linarith
  then show thesis
  proof cases
    case c1
    with assms have "bs = [of_nat c]"
      by (simp add: utf8_encode_char_def)
    with c1 have "map unat bs = [c]"
      by (simp add: unat_of_nat_byte)
    with c1 show thesis
      by (rule one)
  next
    case c2
    obtain a r where d: "c = a * 64 + r" "r < 64" "a = c div 64" "r = c mod 64"
      by (rule digits_2)
    from c2 d(1,2) have a: "2 \<le> a" "a < 32"
      by linarith+
    from assms c2 have "bs = [of_nat (192 + c div 64), of_nat (128 + c mod 64)]"
      by (simp add: utf8_encode_char_def)
    then have bs: "bs = [of_nat (192 + a), of_nat (128 + r)]"
      by (simp only: d(3,4))
    have "map unat bs = [192 + a, 128 + r]"
      unfolding bs by (rule map_unat_2) (use a d(2) in linarith)+
    with a d(2) d(1) show thesis
      by (rule two)
  next
    case c3
    obtain a m r where d: "c = a * 4096 + m * 64 + r" "m < 64" "r < 64"
      "a = c div 4096" "m = c div 64 mod 64" "r = c mod 64"
      by (rule digits_3)
    from c3 d(1,2,3) have a: "a < 16" "a = 0 \<longrightarrow> 32 \<le> m" "a = 13 \<longrightarrow> m < 32"
      by linarith+
    from assms c3 have
      "bs = [of_nat (224 + c div 4096), of_nat (128 + c div 64 mod 64), of_nat (128 + c mod 64)]"
      by (simp add: utf8_encode_char_def)
    then have bs: "bs = [of_nat (224 + a), of_nat (128 + m), of_nat (128 + r)]"
      by (simp only: d(4,5,6))
    have "map unat bs = [224 + a, 128 + m, 128 + r]"
      unfolding bs by (rule map_unat_3) (use a(1) d(2,3) in linarith)+
    with a(1) d(2,3) a(2,3) d(1) show thesis
      by (rule three)
  next
    case c4
    obtain a m k r where d: "c = a * 262144 + m * 4096 + k * 64 + r" "m < 64" "k < 64" "r < 64"
      "a = c div 262144" "m = c div 4096 mod 64" "k = c div 64 mod 64" "r = c mod 64"
      by (rule digits_4)
    from c4 d(1,2,3,4) have a: "a < 5" "a = 0 \<longrightarrow> 16 \<le> m" "a = 4 \<longrightarrow> m < 16"
      by linarith+
    from assms c4 have
      "bs = [of_nat (240 + c div 262144), of_nat (128 + c div 4096 mod 64),
             of_nat (128 + c div 64 mod 64), of_nat (128 + c mod 64)]"
      by (simp add: utf8_encode_char_def)
    then have bs: "bs = [of_nat (240 + a), of_nat (128 + m), of_nat (128 + k), of_nat (128 + r)]"
      by (simp only: d(5,6,7,8))
    have "map unat bs = [240 + a, 128 + m, 128 + k, 128 + r]"
      unfolding bs by (rule map_unat_4) (use a(1) d(2,3,4) in linarith)+
    with a(1) d(2,3,4) a(2,3) d(1) show thesis
      by (rule four)
  next
    case bad
    with assms show thesis
      by (auto simp: utf8_encode_char_def split: if_splits)
  qed
qed

lemma utf8_char_roundtrip:
  assumes "utf8_encode_char c = Inr bs"
  shows "utf8_decode_nat (map unat bs @ rest) = c # utf8_decode_nat rest"
  using assms
proof (cases rule: utf8_encode_char_cases)
  case one
  show ?thesis
    by (simp only: one(2) append_Cons append_Nil decode_one_byte [OF one(1)])
next
  case (two a r)
  show ?thesis
    by (simp only: two(5) append_Cons append_Nil decode_two_bytes [OF two(1,2,3)] two(4))
next
  case (three a m r)
  show ?thesis
    by (simp only: three(7) append_Cons append_Nil
        decode_three_bytes [OF three(1,2,3,4,5)] three(6))
next
  case (four a m k r)
  show ?thesis
    by (simp only: four(8) append_Cons append_Nil
        decode_four_bytes [OF four(1,2,3,4,5,6)] four(7))
qed

lemma utf8_char_nonzero:
  assumes "utf8_encode_char c = Inr bs" "c \<noteq> 0"
  shows "0 \<notin> set (map unat bs)"
  using assms(1)
proof (cases rule: utf8_encode_char_cases)
  case one
  with assms(2) show ?thesis by simp
next
  case (two a r)
  then show ?thesis by simp
next
  case (three a m r)
  then show ?thesis by simp
next
  case (four a m k r)
  then show ?thesis by simp
qed

lemma utf8_encode_Cons:
  assumes "utf8_encode (c # cs) = Inr bs"
  obtains b1 rest where "utf8_encode_char c = Inr b1" "utf8_encode cs = Inr rest" "bs = b1 @ rest"
  using assms by (auto split: sum.splits)

lemma utf8_roundtrip_nat:
  "utf8_encode s = Inr bs \<Longrightarrow> utf8_decode_nat (map unat bs) = s"
proof (induction s arbitrary: bs)
  case Nil
  then show ?case by simp
next
  case (Cons c cs)
  from Cons.prems obtain b1 rest where
    e: "utf8_encode_char c = Inr b1" "utf8_encode cs = Inr rest" "bs = b1 @ rest"
    by (rule utf8_encode_Cons)
  have "utf8_decode_nat (map unat b1 @ map unat rest) = c # utf8_decode_nat (map unat rest)"
    using e(1) by (rule utf8_char_roundtrip)
  with Cons.IH [OF e(2)] e(3) show ?case
    by simp
qed

lemma utf8_roundtrip: "utf8_encode s = Inr bs \<Longrightarrow> utf8_decode_ignore bs = s"
  by (simp add: utf8_decode_ignore_def utf8_roundtrip_nat)

lemma utf8_no_zero_nat:
  "utf8_encode s = Inr bs \<Longrightarrow> 0 \<notin> set s \<Longrightarrow> 0 \<notin> set (map unat bs)"
proof (induction s arbitrary: bs)
  case Nil
  then show ?case by simp
next
  case (Cons c cs)
  from Cons.prems(1) obtain b1 rest where
    e: "utf8_encode_char c = Inr b1" "utf8_encode cs = Inr rest" "bs = b1 @ rest"
    by (rule utf8_encode_Cons)
  from Cons.prems(2) have "c \<noteq> 0" "0 \<notin> set cs"
    by auto
  with utf8_char_nonzero [OF e(1)] Cons.IH [OF e(2)] e(3) show ?case
    by simp
qed

lemma utf8_no_zero:
  assumes "utf8_encode s = Inr bs" "0 \<notin> set s"
  shows "0 \<notin> set bs"
proof
  assume "0 \<in> set bs"
  then have "(0 :: nat) \<in> unat ` set bs"
    by (force intro: rev_image_eqI)
  with utf8_no_zero_nat [OF assms] show False
    by simp
qed

end
